theory Spec2Isabelle
  imports Main "HOL-Library.Word"
begin

unbundle bit_operations_syntax

section \<open>The CPRS decompressor of \<^verbatim>\<open>src/main.c\<close>\<close>

text \<open>
  The development embeds the function \<^verbatim>\<open>decompress\<close> of \<^verbatim>\<open>src/main.c\<close>.
  \<^item> \<^verbatim>\<open>uint32_t\<close> is \<open>32 word\<close>, \<^verbatim>\<open>uint8_t\<close> is \<open>8 word\<close>; the \<^verbatim>\<open>int8_t\<close>
    counter \<^verbatim>\<open>remainingShifts\<close> is an \<open>int\<close> that is wrapped to 8 bits after every
    assignment (\<open>int8\<close>); the \<^verbatim>\<open>int\<close> locals \<^verbatim>\<open>iVar6\<close>, \<^verbatim>\<open>iVar7\<close> are the signed
    reading (\<open>sint\<close>) of the 32-bit value assigned to them.
  \<^item> The input is the byte sequence handed to \<^verbatim>\<open>decompress\<close>; the words \<^verbatim>\<open>data[i]\<close> are
    read from it in little-endian order (the byte order of the hosts the tool is run on).
  \<^item> The output buffer is a byte list of length \<^verbatim>\<open>decompressedSize\<close>. The pointers
    \<^verbatim>\<open>readCursor\<close> and \<^verbatim>\<open>writeCursor\<close> are word offsets into \<^verbatim>\<open>data\<close> and the buffer.
  \<^item> C gives no meaning to an access outside an object or to a shift by a negative amount
    or by 32 and more. The model stops at the first such operation with a value of type
    \<open>fault\<close> that says which one it was. \<open>FormatError\<close> is the only fault that the
    C function reports to its caller (\<^verbatim>\<open>return 0\<close>); all others stand for undefined
    behaviour of the C program.
  \<^item> \<^verbatim>\<open>writeCarryByte\<close> is declared without an initialiser. Its initial content is a
    parameter of \<open>decompress\<close>.
  \<^item> \<^verbatim>\<open>malloc\<close> is taken to succeed and to return a pointer that is not null, also for a
    size of 0.
\<close>

type_synonym u8 = "8 word"

type_synonym u32 = "32 word"

datatype fault =
    FormatError
  | ReadPastInput nat
  | WriteOutsideBuffer nat
  | ReadOutsideBuffer int
  | ShiftOutOfRange int

definition CPRS_SIG :: u32 where
  "CPRS_SIG = 0x53525043"

definition CPRS_TERM :: int where
  "CPRS_TERM = 0x10002"

definition CPRS_TABLE :: "u32 list" where
  "CPRS_TABLE = [
     0x00000001, 0x00000003, 0x00000000, 0x00000001,
     0x00000001, 0x00000003, 0x00000002, 0x00000003,
     0x00000003, 0x00000005, 0x00000004, 0x0000000b,
     0x00000008, 0x0000000a, 0x0000000c, 0x0000010a,
     0x00000002, 0x00000006, 0x00000000, 0x00000003,
     0x00000002, 0x00000006, 0x00000004, 0x00000007,
     0x00000002, 0x00000006, 0x00000008, 0x0000000b,
     0x00000003, 0x00000007, 0x0000000c, 0x00000013,
     0x00000004, 0x00000008, 0x00000014, 0x00000023,
     0x00000005, 0x00000009, 0x00000024, 0x00000043,
     0x00000006, 0x0000000a, 0x00000044, 0x00000083,
     0x00000007, 0x0000000b, 0x00000084, 0x00000103,
     0x00000008, 0x0000000c, 0x00000104, 0x00000203,
     0x00000009, 0x0000000d, 0x00000204, 0x00000403,
     0x0000000a, 0x0000000e, 0x00000404, 0x00000803,
     0x0000000b, 0x0000000f, 0x00000804, 0x00001003,
     0x0000000c, 0x00000010, 0x00001004, 0x00002003,
     0x0000000d, 0x00000011, 0x00002004, 0x00004003,
     0x0000000e, 0x00000012, 0x00004004, 0x00008003,
     0x0000000f, 0x00000013, 0x00008004, 0x00010002,
     0x00000001, 0x00000002, 0x00000004, 0x00000008,
     0x00000010, 0x00000020, 0x00000040, 0x00000080,
     0x00000100, 0x00000200, 0x00000400, 0x00000800,
     0x00001000, 0x00002000, 0x00004000, 0x00008000,
     0x00010000, 0x00020000, 0x00040000, 0x00080000,
     0x00000009, 0x00000012, 0x00000024, 0x00000048,
     0x00000090, 0x00000120, 0x00000240, 0x00000480,
     0x00000900, 0x00001200, 0x00002400, 0x00004800,
     0x00000001, 0x00009000, 0x00002490, 0x00010900,
     0x00004349, 0x00000091, 0x00019024, 0x00002599,
     0x00051941, 0x0005d34b, 0x00004101, 0x00008001,
     0x0000b080, 0x00082c94, 0x00014308, 0x0004d183,
     0x000880b5, 0x0003f8ad, 0x000cadd5, 0x0004f7db,
     0x00010901, 0x0000d349, 0x00002401, 0x00009924,
     0x000066d0, 0x000519d0, 0x0004436f, 0x00006498,
     0x00059940, 0x000563cb, 0x00086d95, 0x0001c309,
     0x00000000, 0x00c602b5, 0x018c016b, 0x01ce037b,
     0x02940021, 0x01290042, 0x01ad0231, 0x02520084,
     0x031802d6, 0x0210014a, 0x039c02f7, 0x027303de,
     0x03bd00e7, 0x035a0063, 0x01ef0339, 0x00a50108,
     0x015502aa, 0x0372025b, 0x00b702e5, 0x00100200,
     0x01f602cf, 0x019f03ec, 0x039602dc, 0x03d9033e,
     0x01cb016e, 0x00fb0367, 0x00010020, 0x00040080,
     0x00080100, 0x01b9032d, 0x00020040, 0x027d03b3,
     0x021d0160, 0x03b0000b, 0x00240111, 0x00810228,
     0x0335019b, 0x02b9036c, 0x02d500b6, 0x02b602c5,
     0x01e30185, 0x006f00ac, 0x03b502a2, 0x02bd0055,
     0x02690192, 0x0133024c, 0x02f501f4, 0x02b7028f]"

subsection \<open>Machine arithmetic and memory\<close>

text \<open>Conversion to \<^verbatim>\<open>int8_t\<close>: the low 8 bits, read as two's complement.\<close>

definition int8 :: "int \<Rightarrow> int" where
  "int8 x = signed_take_bit 7 x"

text \<open>\<^verbatim>\<open>data[i]\<close>: the \<open>i\<close>-th 32-bit word of the input bytes.\<close>

definition word_at :: "u8 list \<Rightarrow> nat \<Rightarrow> u32" where
  "word_at bs i =
     ucast (bs ! (4 * i)) OR push_bit 8 (ucast (bs ! (4 * i + 1)))
       OR push_bit 16 (ucast (bs ! (4 * i + 2))) OR push_bit 24 (ucast (bs ! (4 * i + 3)))"

definition words_of :: "u8 list \<Rightarrow> u32 list" where
  "words_of bs = map (word_at bs) [0 ..< length bs div 4]"

text \<open>The four bytes of a word in memory order.\<close>

definition word_bytes :: "u32 \<Rightarrow> u8 list" where
  "word_bytes v = [ucast v, ucast (drop_bit 8 v), ucast (drop_bit 16 v), ucast (drop_bit 24 v)]"

text \<open>\<^verbatim>\<open>*(uint8_t*)((size_t)&v + k) = b\<close>: byte \<open>k\<close> of the word \<open>v\<close> is replaced.\<close>

definition store_lane :: "u32 \<Rightarrow> nat \<Rightarrow> u8 \<Rightarrow> u32" where
  "store_lane v k b = (v AND NOT (push_bit (8 * k) 0xff)) OR push_bit (8 * k) (ucast b)"

text \<open>\<^verbatim>\<open>*writeCursor = v\<close> with \<open>writeCursor = (uint32_t*)buffer + wc\<close>.\<close>

definition store_word :: "u8 list \<Rightarrow> nat \<Rightarrow> u32 \<Rightarrow> fault + u8 list" where
  "store_word buf wc v =
     (if 4 * wc + 4 \<le> length buf
      then Inr (take (4 * wc) buf @ word_bytes v @ drop (4 * wc + 4) buf)
      else Inl (WriteOutsideBuffer wc))"

subsection \<open>Decoder state\<close>

text \<open>
  The local variables of \<^verbatim>\<open>decompress\<close> that live across loop iterations, and the
  output buffer. \<^verbatim>\<open>readCarryByte\<close> is declared inside the loop body; every path assigns
  it before it is read, so keeping it in the state changes nothing.
\<close>

record dstate =
  alpha :: u32
  beta :: u32
  remainingShifts :: int
  currentValue :: u32
  readCursor :: nat
  writeCursor :: nat
  index :: u32
  writeCarryByte :: u8
  readCarryByte :: u32
  buffer :: "u8 list"

datatype flow = Break dstate | Next dstate

subsection \<open>Output of one byte (lines 178-185, 203-210, 219-226)\<close>

definition write_byte :: "dstate \<Rightarrow> fault + dstate" where
  "write_byte s =
     (let a = index s AND 3;
          i = index s + 1;
          cv = store_lane (currentValue s) (unat a) (writeCarryByte s);
          s1 = s\<lparr>alpha := a, index := i, currentValue := cv\<rparr>
      in if i AND 3 = 0 then
           (case store_word (buffer s1) (writeCursor s1) cv of
              Inl f \<Rightarrow> Inl f
            | Inr buf \<Rightarrow>
                Inr (s1\<lparr>buffer := buf, writeCursor := writeCursor s1 + 1, currentValue := 0\<rparr>))
         else Inr s1)"

subsection \<open>Literal path (lines 174-185)\<close>

definition literal_step :: "dstate \<Rightarrow> fault + dstate" where
  "literal_step s =
     write_byte (s\<lparr>readCarryByte := drop_bit 9 (alpha s),
                   remainingShifts := int8 (remainingShifts s - 9),
                   writeCarryByte := ucast (drop_bit 1 (alpha s) AND 0xff)\<rparr>)"

subsection \<open>Coded-symbol path (lines 186-229)\<close>

text \<open>
  The values computed from the window \<^verbatim>\<open>alpha\<close> in lines 187-200. \<open>uVar1\<close> is the
  second value of that variable (the table entry \<^verbatim>\<open>*puVar2\<close>), \<open>puVar2\<close> the index of
  that entry in the table and \<open>carry\<close> the value assigned to \<^verbatim>\<open>readCarryByte\<close>. The
  indices stay inside the table and the shift amounts below 32 for every window
  (\<open>decode_coded_in_range\<close> below).
\<close>

record coded =
  uVar9 :: u32
  uVar1 :: u32
  uVar5 :: u32
  puVar2 :: nat
  carry :: u32
  iVar7 :: int
  iVar6 :: int

definition decode_coded :: "u32 \<Rightarrow> coded" where
  "decode_coded a =
     (let v9 = CPRS_TABLE ! unat ((drop_bit 1 a AND 3) * 4);
          v1 = drop_bit (unat (v9 AND 0xff)) (drop_bit 3 a);
          v5 = drop_bit 4 v1;
          p2 = unat ((v1 AND 0xf) * 4 + 0x10);
          v1' = CPRS_TABLE ! p2
      in \<lparr>uVar9 = v9, uVar1 = v1', uVar5 = v5, puVar2 = p2,
          carry = drop_bit (unat (v1' AND 0xff)) v5,
          iVar7 = sint (CPRS_TABLE ! (p2 + 2) + ((push_bit (unat (v1' AND 0xff)) 1 - 1) AND v5)),
          iVar6 = sint (CPRS_TABLE ! unat ((drop_bit 1 a AND 3) * 4 + 2)
                        + ((push_bit (unat (v9 AND 0xff)) 1 - 1) AND drop_bit 3 a)
                        + word_of_int (drop_bit 3 (sint (CPRS_TABLE ! (p2 + 1) + 0xb))))\<rparr>)"

text \<open>
  \<^verbatim>\<open>while (iVar6--)\<close> of lines 202-211, with the number of iterations left. The loops
  are entered with \<^verbatim>\<open>iVar6\<close>, which is at least 2 for every window
  (\<open>decode_coded_spec\<close> below).
\<close>

fun run_loop :: "nat \<Rightarrow> dstate \<Rightarrow> fault + dstate" where
  "run_loop 0 s = Inr s"
| "run_loop (Suc n) s =
     (case write_byte s of Inl f \<Rightarrow> Inl f | Inr s' \<Rightarrow> run_loop n s')"

text \<open>
  The \<^verbatim>\<open>for\<close> loop of lines 214-227: \<open>start\<close> is the byte offset of \<^verbatim>\<open>start\<close> in the
  buffer, \<open>i\<close> the loop counter and the \<open>nat\<close> argument the number of iterations left.
\<close>

fun copy_loop :: "int \<Rightarrow> int \<Rightarrow> nat \<Rightarrow> nat \<Rightarrow> dstate \<Rightarrow> fault + dstate" where
  "copy_loop v7 start i 0 s = Inr s"
| "copy_loop v7 start i (Suc n) s =
     (case (if (word_of_int (v7 * 2) :: u32) < 4 \<and> index s AND 3 \<noteq> 0
            then store_word (buffer s) (writeCursor s) (currentValue s)
            else Inr (buffer s)) of
        Inl f \<Rightarrow> Inl f
      | Inr buf \<Rightarrow>
          (let off = start + int i in
           if off < 0 \<or> int (length buf) \<le> off then Inl (ReadOutsideBuffer off)
           else (case write_byte (s\<lparr>buffer := buf, writeCarryByte := buf ! nat off\<rparr>) of
                   Inl f \<Rightarrow> Inl f
                 | Inr s' \<Rightarrow> copy_loop v7 start (Suc i) n s')))"

definition coded_step :: "dstate \<Rightarrow> fault + flow" where
  "coded_step s =
     (let c = decode_coded (alpha s);
          s1 = s\<lparr>readCarryByte := carry c,
                 remainingShifts := int8 (remainingShifts s - uint (uVar9 c + 7 + uVar1 c))\<rparr>
      in if iVar7 c \<ge> CPRS_TERM then Inr (Break s1)
         else
           (case (if iVar7 c = 0 then run_loop (nat (iVar6 c)) s1
                  else copy_loop (iVar7 c) (uint (index s1) - iVar7 c * 2) 0 (nat (iVar6 c)) s1) of
              Inl f \<Rightarrow> Inl f
            | Inr s2 \<Rightarrow> Inr (Next s2)))"

subsection \<open>Refill of the bit window (lines 231-237)\<close>

definition refill :: "u32 list \<Rightarrow> dstate \<Rightarrow> fault + dstate" where
  "refill data s =
     (case (if remainingShifts s < 0 then
              (let r = int8 (remainingShifts s + 0x20) in
               if 0x20 - r < 0 \<or> 32 \<le> 0x20 - r then Inl (ShiftOutOfRange (0x20 - r))
               else if length data \<le> readCursor s then Inl (ReadPastInput (readCursor s))
               else Inr (s\<lparr>remainingShifts := r,
                           readCarryByte := drop_bit (nat (0x20 - r)) (beta s),
                           beta := data ! readCursor s,
                           readCursor := readCursor s + 1\<rparr>))
            else Inr s) of
        Inl f \<Rightarrow> Inl f
      | Inr s1 \<Rightarrow>
          if remainingShifts s1 < 0 \<or> 32 \<le> remainingShifts s1
          then Inl (ShiftOutOfRange (remainingShifts s1))
          else Inr (s1\<lparr>alpha := push_bit (nat (remainingShifts s1)) (beta s1) OR readCarryByte s1\<rparr>))"

subsection \<open>One iteration of \<^verbatim>\<open>while (1)\<close> (lines 171-238)\<close>

definition step :: "u32 list \<Rightarrow> dstate \<Rightarrow> fault + flow" where
  "step data s =
     (case (if alpha s AND 1 = 0
            then (case literal_step s of Inl f \<Rightarrow> Inl f | Inr s1 \<Rightarrow> Inr (Next s1))
            else coded_step s) of
        Inl f \<Rightarrow> Inl f
      | Inr (Break s1) \<Rightarrow> Inr (Break s1)
      | Inr (Next s1) \<Rightarrow>
          (case refill data s1 of Inl f \<Rightarrow> Inl f | Inr s2 \<Rightarrow> Inr (Next s2)))"

subsection \<open>Facts about the table and the frame of the emission loops\<close>

lemma unat_and3: "unat (x AND 3 :: u32) \<le> 3"
  using word_and_le1 [of x 3, THEN word_le_nat_alt [THEN iffD1]] by simp

lemma unat_and15: "unat (x AND 0xf :: u32) \<le> 15"
  using word_and_le1 [of x "0xf", THEN word_le_nat_alt [THEN iffD1]] by simp

lemma prim_index: "unat ((x AND 3) * 4 :: u32) = 4 * unat (x AND 3)"
  using unat_and3 [of x] by (simp add: unat_word_ariths)

lemma prim_index2: "unat ((x AND 3) * 4 + 2 :: u32) = 4 * unat (x AND 3) + 2"
  using unat_and3 [of x] by (simp add: unat_word_ariths)

lemma sec_index: "unat ((x AND 0xf) * 4 + 0x10 :: u32) = 4 * unat (x AND 0xf) + 16"
  using unat_and15 [of x] by (simp add: unat_word_ariths)

lemma int8_id: "-128 \<le> x \<Longrightarrow> x < 128 \<Longrightarrow> int8 x = x"
  unfolding int8_def by (simp add: signed_take_bit_int_eq_self)

lemma le3_cases: "k \<le> (3::nat) \<Longrightarrow> k = 0 \<or> k = 1 \<or> k = 2 \<or> k = 3"
  by arith

lemma le15_cases: "j \<le> (15::nat) \<Longrightarrow> j = 0 \<or> j = 1 \<or> j = 2 \<or> j = 3 \<or> j = 4 \<or> j = 5 \<or> j = 6 \<or> j = 7
   \<or> j = 8 \<or> j = 9 \<or> j = 10 \<or> j = 11 \<or> j = 12 \<or> j = 13 \<or> j = 14 \<or> j = 15"
  by arith

text \<open>The rows of the table the decoder reads: columns 0 and 2 of rows 0-3, columns 0-2 of rows 4-19.\<close>

lemma table_primary:
  "k \<le> 3 \<Longrightarrow> CPRS_TABLE ! (4 * k) = [1, 1, 3, 8] ! k \<and> CPRS_TABLE ! (4 * k + 2) = [0, 2, 4, 0xc] ! k"
  by (auto dest!: le3_cases simp: CPRS_TABLE_def)

lemma table_secondary:
  "j \<le> 15 \<Longrightarrow>
     CPRS_TABLE ! (4 * j + 16) = [2, 2, 2, 3, 4, 5, 6, 7, 8, 9, 10, 11, 12, 13, 14, 15] ! j \<and>
     CPRS_TABLE ! (4 * j + 16 + 1) = [6, 6, 6, 7, 8, 9, 10, 11, 12, 13, 14, 15, 16, 17, 18, 19] ! j \<and>
     CPRS_TABLE ! (4 * j + 16 + 2) =
       [0, 4, 8, 0xc, 0x14, 0x24, 0x44, 0x84, 0x104, 0x204, 0x404, 0x804, 0x1004, 0x2004, 0x4004, 0x8004] ! j"
  by (auto dest!: le15_cases simp: CPRS_TABLE_def)

lemma decode_coded_uVar9:
  "uVar9 (decode_coded a) = CPRS_TABLE ! (4 * unat (drop_bit 1 a AND 3))"
  by (simp add: decode_coded_def Let_def prim_index)

lemma uVar9_cases: "uVar9 (decode_coded a) \<in> {1, 3, 8}"
  using table_primary [OF unat_and3 [of "drop_bit 1 a"]] le3_cases [OF unat_and3 [of "drop_bit 1 a"]]
  by (auto simp: decode_coded_uVar9)

lemma uVar1_range: "2 \<le> uVar1 (decode_coded a) \<and> uVar1 (decode_coded a) \<le> 15"
proof -
  define v1 where "v1 = drop_bit (unat (uVar9 (decode_coded a) AND 0xff)) (drop_bit 3 a)"
  have "uVar1 (decode_coded a) = CPRS_TABLE ! (4 * unat (v1 AND 0xf) + 16)"
    by (simp add: decode_coded_def Let_def sec_index v1_def)
  then show ?thesis
    using table_secondary [OF unat_and15 [of v1]] le15_cases [OF unat_and15 [of v1]]
    by auto
qed

lemma consumed_range:
  "10 \<le> uint (uVar9 (decode_coded a) + 7 + uVar1 (decode_coded a)) \<and>
   uint (uVar9 (decode_coded a) + 7 + uVar1 (decode_coded a)) \<le> 30"
  using uVar9_cases [of a] uVar1_range [of a]
  by (auto simp: word_le_def uint_word_ariths)

lemma write_byte_frame:
  "write_byte s = Inr s' \<Longrightarrow>
     remainingShifts s' = remainingShifts s \<and> readCursor s' = readCursor s \<and>
     beta s' = beta s \<and> readCarryByte s' = readCarryByte s \<and> writeCarryByte s' = writeCarryByte s"
  by (auto simp: write_byte_def Let_def split: sum.splits if_splits)

lemma run_loop_frame:
  "run_loop n s = Inr s' \<Longrightarrow>
     remainingShifts s' = remainingShifts s \<and> readCursor s' = readCursor s \<and>
     beta s' = beta s \<and> readCarryByte s' = readCarryByte s \<and> writeCarryByte s' = writeCarryByte s"
  by (induction n arbitrary: s) (auto split: sum.splits dest!: write_byte_frame)

lemma copy_loop_frame:
  "copy_loop v7 start i n s = Inr s' \<Longrightarrow>
     remainingShifts s' = remainingShifts s \<and> readCursor s' = readCursor s \<and>
     beta s' = beta s \<and> readCarryByte s' = readCarryByte s"
  by (induction n arbitrary: s i) (auto simp: Let_def split: sum.splits if_splits dest!: write_byte_frame)

subsection \<open>The decode loop\<close>

text \<open>
  Every iteration that goes on takes at least 9 bits from the window, and a refill must
  find a word of \<^verbatim>\<open>data\<close>: the number of bits left bounds the number of iterations.
\<close>

definition window_bits :: "u32 list \<Rightarrow> dstate \<Rightarrow> nat" where
  "window_bits data s =
     32 * (length data - readCursor s)
       + (if 0 \<le> remainingShifts s \<and> remainingShifts s \<le> 32 then nat (remainingShifts s) else 33)"

lemma refill_result:
  "refill data s = Inr s' \<Longrightarrow>
     0 \<le> remainingShifts s' \<and> remainingShifts s' < 32 \<and>
     (remainingShifts s < 0 \<and> readCursor s < length data \<and> readCursor s' = Suc (readCursor s) \<or>
      0 \<le> remainingShifts s \<and> remainingShifts s' = remainingShifts s \<and> readCursor s' = readCursor s)"
  by (auto simp: refill_def Let_def split: sum.splits if_splits)

lemma literal_step_frame:
  "literal_step s = Inr s' \<Longrightarrow>
     remainingShifts s' = int8 (remainingShifts s - 9) \<and> readCursor s' = readCursor s"
  by (auto simp: literal_step_def dest!: write_byte_frame)

lemma coded_step_frame:
  "coded_step s = Inr (Next s') \<Longrightarrow>
     remainingShifts s' =
       int8 (remainingShifts s - uint (uVar9 (decode_coded (alpha s)) + 7 + uVar1 (decode_coded (alpha s)))) \<and>
     readCursor s' = readCursor s"
  by (auto simp: coded_step_def Let_def split: sum.splits if_splits
           dest!: run_loop_frame copy_loop_frame)

lemma consume_refill_decreases:
  assumes n: "9 \<le> n" "n \<le> 30"
    and t: "remainingShifts t = int8 (remainingShifts s - n)" "readCursor t = readCursor s"
    and r: "refill data t = Inr s'"
  shows "window_bits data s' < window_bits data s"
proof -
  note R = refill_result [OF r]
  show ?thesis
  proof (cases "remainingShifts t < 0")
    case True
    with R have "readCursor s < length data" "readCursor s' = Suc (readCursor s)"
      using t by auto
    with R show ?thesis by (auto simp: window_bits_def)
  next
    case False
    with R have eq: "remainingShifts s' = int8 (remainingShifts s - n)" "readCursor s' = readCursor s"
      using t by auto
    show ?thesis
    proof (cases "0 \<le> remainingShifts s \<and> remainingShifts s \<le> 32")
      case True
      with n have "int8 (remainingShifts s - n) = remainingShifts s - n"
        by (intro int8_id) auto
      with R eq True n show ?thesis by (auto simp: window_bits_def)
    next
      case False
      with R eq show ?thesis by (auto simp: window_bits_def)
    qed
  qed
qed

lemma step_decreases:
  assumes "step data s = Inr (Next s')"
  shows "window_bits data s' < window_bits data s"
proof (cases "alpha s AND 1 = 0")
  case True
  with assms obtain t where l: "literal_step s = Inr t" and r: "refill data t = Inr s'"
    by (auto simp: step_def split: sum.splits)
  from literal_step_frame [OF l] show ?thesis
    by (intro consume_refill_decreases [OF _ _ _ _ r, where n = 9]) auto
next
  case False
  with assms obtain t where c: "coded_step s = Inr (Next t)" and r: "refill data t = Inr s'"
    by (auto simp: step_def split: sum.splits flow.splits)
  from coded_step_frame [OF c] consumed_range [of "alpha s"] show ?thesis
    by (intro consume_refill_decreases [OF _ _ _ _ r,
          where n = "uint (uVar9 (decode_coded (alpha s)) + 7 + uVar1 (decode_coded (alpha s)))"]) auto
qed

text \<open>\<^verbatim>\<open>while (1)\<close>: the state at \<^verbatim>\<open>break\<close>, or the first fault.\<close>

function decode_loop :: "u32 list \<Rightarrow> dstate \<Rightarrow> fault + dstate" where
  "decode_loop data s =
     (case step data s of
        Inl f \<Rightarrow> Inl f
      | Inr (Break s') \<Rightarrow> Inr s'
      | Inr (Next s') \<Rightarrow> decode_loop data s')"
  by pat_completeness auto
termination
  by (relation "measure (\<lambda>(data, s). window_bits data s)") (auto dest: step_decreases)

declare decode_loop.simps [simp del]

text \<open>Lines 240-246: the pending word is stored, the buffer and \<^verbatim>\<open>index\<close> are returned.\<close>

definition finish :: "dstate \<Rightarrow> fault + u8 list \<times> nat" where
  "finish s =
     (if index s AND 3 \<noteq> 0 then
        (case store_word (buffer s) (writeCursor s) (currentValue s) of
           Inl f \<Rightarrow> Inl f
         | Inr buf \<Rightarrow> Inr (buf, unat (index s)))
      else Inr (buffer s, unat (index s)))"

definition initial_state :: "u8 \<Rightarrow> u32 list \<Rightarrow> dstate" where
  "initial_state junk data =
     \<lparr>alpha = data ! 3, beta = data ! 4, remainingShifts = 0x20, currentValue = 0,
      readCursor = 5, writeCursor = 0, index = 0, writeCarryByte = junk,
      readCarryByte = 0, buffer = replicate (unat (data ! 2)) 0\<rparr>"

text \<open>
  \<open>decompress junk bytes\<close>: \<open>bytes\<close> is the memory \<^verbatim>\<open>data\<close> points to
  (\<^verbatim>\<open>sizeBytes\<close> is its length), \<open>junk\<close> the initial content of
  \<^verbatim>\<open>writeCarryByte\<close>. The result is the returned buffer with \<^verbatim>\<open>*sizeOut\<close>.
\<close>

definition decompress :: "u8 \<Rightarrow> u8 list \<Rightarrow> fault + u8 list \<times> nat" where
  "decompress junk bytes =
     (if length bytes mod 4 \<noteq> 0 then Inl FormatError
      else
        let data = words_of bytes; size = length bytes div 4 in
        if size \<le> 5 then Inl FormatError
        else if data ! 0 \<noteq> CPRS_SIG \<or> data ! (size - 1) \<noteq> CPRS_SIG then Inl FormatError
        else
          (case decode_loop data (initial_state junk data) of
             Inl f \<Rightarrow> Inl f
           | Inr s \<Rightarrow> finish s))"

text \<open>The bytes of a container given by its words, for writing down inputs.\<close>

definition bytes_of :: "u32 list \<Rightarrow> u8 list" where
  "bytes_of ws = concat (map word_bytes ws)"

subsection \<open>Words and bytes of the input\<close>

lemma word_bytes_inverse:
  "ucast (ucast v :: u8) OR push_bit 8 (ucast (ucast (drop_bit 8 v) :: u8))
     OR push_bit 16 (ucast (ucast (drop_bit 16 v) :: u8))
     OR push_bit 24 (ucast (ucast (drop_bit 24 v) :: u8)) = (v :: u32)" (is "?l = v")
proof (rule bit_word_eqI)
  fix n :: nat
  assume "n < LENGTH(32)"
  then consider "n < 8" | "8 \<le> n" "n < 16" | "16 \<le> n" "n < 24" | "24 \<le> n" "n < 32"
    by fastforce
  then show "bit ?l n = bit v n"
    by cases (auto simp: bit_simps)
qed

lemma length_bytes_of: "length (bytes_of ws) = 4 * length ws"
  by (induction ws) (simp_all add: bytes_of_def word_bytes_def)

lemma word_at_Cons4: "word_at (a # b # c # d # bs) (Suc k) = word_at bs k"
  by (simp add: word_at_def add.commute)

lemma word_at_bytes_of: "i < length ws \<Longrightarrow> word_at (bytes_of ws) i = ws ! i"
proof (induction ws arbitrary: i)
  case Nil
  then show ?case by simp
next
  case (Cons w ws)
  show ?case
  proof (cases i)
    case 0
    then show ?thesis
      by (simp add: word_at_def bytes_of_def word_bytes_def word_bytes_inverse)
  next
    case (Suc k)
    with Cons.prems have "k < length ws" by simp
    from Cons.IH [OF this] Suc show ?thesis
      by (simp add: bytes_of_def word_bytes_def word_at_Cons4)
  qed
qed

lemma words_of_bytes_of: "words_of (bytes_of ws) = ws"
  by (rule nth_equalityI) (simp_all add: words_of_def length_bytes_of word_at_bytes_of)

subsection \<open>Bytes of the accumulator word\<close>

lemma lt4_cases: "k < (4::nat) \<Longrightarrow> k = 0 \<or> k = 1 \<or> k = 2 \<or> k = 3"
  by arith

lemma ff_mask: "(0xff :: u32) = mask 8"
  by (simp add: mask_eq_exp_minus_1)

lemma lane_get_set:
  assumes "k < 4" "j < 4"
  shows "(ucast (drop_bit (8 * j) (store_lane v k b)) :: u8)
           = (if j = k then b else ucast (drop_bit (8 * j) v))"
proof (rule bit_word_eqI)
  fix n :: nat
  assume "n < LENGTH(8)"
  then have n: "n < 8" by simp
  show "bit (ucast (drop_bit (8 * j) (store_lane v k b)) :: u8) n
          = bit (if j = k then b else ucast (drop_bit (8 * j) v) :: u8) n"
  proof (cases "j = k")
    case True
    with n assms show ?thesis
      by (auto simp: store_lane_def ff_mask bit_simps)
  next
    case False
    with n assms have "8 * j + n < 8 * k \<or> 8 * k + 8 \<le> 8 * j + n" by arith
    with False n assms show ?thesis
      by (auto simp: store_lane_def ff_mask bit_simps dest: bit_imp_le_length)
  qed
qed

lemma word_bytes_store_lane:
  assumes "k < 4"
  shows "word_bytes (store_lane v k b) = (word_bytes v)[k := b]"
proof -
  have "word_bytes (store_lane v k b)
          = map (\<lambda>j. if j = k then b else ucast (drop_bit (8 * j) v)) [0, 1, 2, 3]"
    using lane_get_set [OF assms, of 0 v b] lane_get_set [OF assms, of 1 v b]
          lane_get_set [OF assms, of 2 v b] lane_get_set [OF assms, of 3 v b]
    by (simp add: word_bytes_def)
  also have "\<dots> = (word_bytes v)[k := b]"
    using lt4_cases [OF assms] by (auto simp: word_bytes_def)
  finally show ?thesis .
qed

lemma word_bytes_0: "word_bytes 0 = [0, 0, 0, 0]"
  by (simp add: word_bytes_def)

subsection \<open>Running the decoder on a concrete input\<close>

lemma replicate_numeral: "replicate (numeral k) x = x # replicate (pred_numeral k) x"
  by (simp add: numeral_eq_Suc)

lemma run_loop_numeral:
  "run_loop (numeral k) s =
     (case write_byte s of Inl f \<Rightarrow> Inl f | Inr s' \<Rightarrow> run_loop (pred_numeral k) s')"
  by (simp add: numeral_eq_Suc)

lemma copy_loop_numeral:
  "copy_loop v7 start i (numeral k) s =
     (case (if (word_of_int (v7 * 2) :: u32) < 4 \<and> index s AND 3 \<noteq> 0
            then store_word (buffer s) (writeCursor s) (currentValue s)
            else Inr (buffer s)) of
        Inl f \<Rightarrow> Inl f
      | Inr buf \<Rightarrow>
          (let off = start + int i in
           if off < 0 \<or> int (length buf) \<le> off then Inl (ReadOutsideBuffer off)
           else (case write_byte (s\<lparr>buffer := buf, writeCarryByte := buf ! nat off\<rparr>) of
                   Inl f \<Rightarrow> Inl f
                 | Inr s' \<Rightarrow> copy_loop v7 start (Suc i) (pred_numeral k) s')))"
  by (simp add: numeral_eq_Suc)

lemmas run_defs = decompress_def initial_state_def decode_loop.simps step_def literal_step_def
  coded_step_def decode_coded_def refill_def write_byte_def store_word_def finish_def
  int8_def Let_def CPRS_TERM_def CPRS_TABLE_def CPRS_SIG_def
  words_of_bytes_of length_bytes_of word_bytes_store_lane word_bytes_0
  run_loop_numeral copy_loop_numeral replicate_numeral

subsection \<open>Faults of the decoder\<close>

text \<open>Once the header checks have passed, nothing reports \<open>FormatError\<close>.\<close>

lemma write_byte_fault: "write_byte s = Inl f \<Longrightarrow> f = WriteOutsideBuffer (writeCursor s)"
  by (auto simp: write_byte_def store_word_def Let_def split: if_splits sum.splits)

lemma run_loop_fault: "run_loop n s = Inl f \<Longrightarrow> f \<noteq> FormatError"
  by (induction n arbitrary: s) (auto split: sum.splits dest: write_byte_fault)

lemma copy_loop_fault: "copy_loop v7 start i n s = Inl f \<Longrightarrow> f \<noteq> FormatError"
  by (induction n arbitrary: s i)
     (auto simp: Let_def store_word_def split: sum.splits if_splits dest: write_byte_fault)

lemma refill_fault: "refill data s = Inl f \<Longrightarrow> f \<noteq> FormatError"
  by (auto simp: refill_def Let_def split: sum.splits if_splits)

lemma step_fault: "step data s = Inl f \<Longrightarrow> f \<noteq> FormatError"
  by (auto simp: step_def literal_step_def coded_step_def Let_def
           split: sum.splits if_splits flow.splits
           dest: write_byte_fault run_loop_fault copy_loop_fault refill_fault)

lemma decode_loop_fault: "decode_loop data s = Inl f \<Longrightarrow> f \<noteq> FormatError"
proof (induction data s rule: decode_loop.induct)
  case (1 data s)
  show ?case
  proof (cases "step data s")
    case (Inl g)
    with "1.prems" step_fault [OF Inl] show ?thesis by (simp add: decode_loop.simps)
  next
    case (Inr fl)
    show ?thesis
    proof (cases fl)
      case (Break s')
      with Inr "1.prems" show ?thesis by (simp add: decode_loop.simps)
    next
      case (Next s')
      with Inr "1.prems" have "decode_loop data s' = Inl f" by (simp add: decode_loop.simps)
      from "1.IH" [OF Inr Next this] show ?thesis .
    qed
  qed
qed

lemma finish_fault: "finish s = Inl f \<Longrightarrow> f \<noteq> FormatError"
  by (auto simp: finish_def store_word_def split: if_splits sum.splits)

lemma words_of_nth: "i < length bytes div 4 \<Longrightarrow> words_of bytes ! i = word_at bytes i"
  by (simp add: words_of_def)

section \<open>The output as a byte sequence\<close>

text \<open>
  The bytes produced so far: the committed words of the buffer, then the bytes already
  placed in the accumulator \<^verbatim>\<open>currentValue\<close>.
\<close>

definition emitted :: "dstate \<Rightarrow> u8 list" where
  "emitted s =
     take (4 * writeCursor s) (buffer s) @ take (unat (index s) mod 4) (word_bytes (currentValue s))"




















section \<open>The symbol decoder\<close>

text \<open>
  The decode formulas in the words of the specification: the table is 48 rows of four
  words; the primary row is chosen by bits 1-2 of the window, the secondary row by the
  low four bits of \<open>rest\<close> in the block that starts at row 4.
\<close>

definition table_col :: "nat \<Rightarrow> nat \<Rightarrow> u32" where
  "table_col row col = CPRS_TABLE ! (4 * row + col)"

definition primaryRow :: "u32 \<Rightarrow> nat" where
  "primaryRow w = unat (drop_bit 1 w AND 3)"

definition codeLenA :: "u32 \<Rightarrow> nat" where
  "codeLenA w = unat (table_col (primaryRow w) 0)"

definition rest :: "u32 \<Rightarrow> u32" where
  "rest w = drop_bit (codeLenA w) (drop_bit 3 w)"

definition secondaryRow :: "u32 \<Rightarrow> nat" where
  "secondaryRow w = 4 + unat (rest w AND 0xf)"

definition codeLenB :: "u32 \<Rightarrow> nat" where
  "codeLenB w = unat (table_col (secondaryRow w) 0)"

definition spec_sym :: "u32 \<Rightarrow> int" where
  "spec_sym w =
     uint (table_col (secondaryRow w) 2) + uint (drop_bit 4 (rest w) AND (push_bit (codeLenB w) 1 - 1))"

definition spec_count :: "u32 \<Rightarrow> int" where
  "spec_count w =
     uint (table_col (primaryRow w) 2) + uint (drop_bit 3 w AND (push_bit (codeLenA w) 1 - 1))
       + drop_bit 3 (uint (table_col (secondaryRow w) 1) + 11)"

definition spec_bits :: "u32 \<Rightarrow> nat" where
  "spec_bits w = codeLenA w + 7 + codeLenB w"

lemma primary_row_facts:
  "k \<le> 3 \<Longrightarrow> table_col k 0 \<in> {1, 3, 8} \<and> uint (table_col k 2) \<le> 12"
  using table_primary [of k] by (auto simp: table_col_def dest!: le3_cases)

lemma secondary_row_facts:
  "j \<le> 15 \<Longrightarrow>
     2 \<le> uint (table_col (4 + j) 0) \<and> uint (table_col (4 + j) 0) \<le> 15 \<and>
     6 \<le> uint (table_col (4 + j) 1) \<and> uint (table_col (4 + j) 1) \<le> 19 \<and>
     uint (table_col (4 + j) 2) \<le> 0x8004"
  using table_secondary [of j] by (auto simp: table_col_def dest!: le15_cases)

lemma and_ff: "uint x \<le> 255 \<Longrightarrow> x AND 0xff = (x :: u32)"
  using mask_eq_iff [of x 8] by (simp add: ff_mask)

lemma mask_and_bound: "uint ((push_bit n 1 - 1) AND x :: u32) < 2 ^ n"
  using and_mask_lt_2p [of x n] by (simp add: mask_eq_exp_minus_1 and.commute)

lemma sint_small:
  assumes "uint x < 2147483648"
  shows "sint (x :: u32) = uint x"
proof -
  have "- (2 ^ 31) \<le> (0::int)" by simp
  also have "0 \<le> uint x" by simp
  finally have "- (2 ^ 31) \<le> uint x" .
  moreover from assms have "uint x < 2 ^ 31" by simp
  ultimately have "signed_take_bit 31 (uint x) = uint x"
    by (rule signed_take_bit_int_eq_self)
  then show ?thesis by (simp add: sint_uint)
qed

lemma uint_add_small: "uint a + uint b < 4294967296 \<Longrightarrow> uint (a + b :: u32) = uint a + uint b"
  using uint_add_lem [of a b] by simp

lemma pow_le_15: "n \<le> 15 \<Longrightarrow> (2::int) ^ n \<le> 32768"
  using power_increasing [of n 15 "2::int"] by simp

lemma pow_le_8: "n \<le> 8 \<Longrightarrow> (2::int) ^ n \<le> 256"
  using power_increasing [of n 8 "2::int"] by simp

lemma uint_word_of_int_small: "0 \<le> x \<Longrightarrow> x < 4294967296 \<Longrightarrow> uint (word_of_int x :: u32) = x"
  by (simp add: uint_word_of_int)

lemma decode_coded_spec:
  fixes w :: u32
  defines "c \<equiv> decode_coded w"
  shows "uVar9 c = table_col (primaryRow w) 0"
    and "uVar1 c = table_col (secondaryRow w) 0"
    and "puVar2 c = 4 * secondaryRow w"
    and "carry c = drop_bit (spec_bits w) w"
    and "uint (uVar9 c + 7 + uVar1 c) = int (spec_bits w)"
    and "iVar7 c = spec_sym w"
    and "iVar6 c = spec_count w"
    and "2 \<le> iVar6 c"
    and "0 \<le> iVar7 c"
proof -
  define v9 where "v9 = CPRS_TABLE ! unat ((drop_bit 1 w AND 3) * 4)"
  define v1 where "v1 = drop_bit (unat (v9 AND 0xff)) (drop_bit 3 w)"
  define v5 where "v5 = drop_bit 4 v1"
  define p2 where "p2 = unat ((v1 AND 0xf) * 4 + 0x10)"
  define v1' where "v1' = CPRS_TABLE ! p2"
  have fields: "uVar9 c = v9" "uVar1 c = v1'" "puVar2 c = p2"
    "carry c = drop_bit (unat (v1' AND 0xff)) v5"
    "iVar7 c = sint (CPRS_TABLE ! (p2 + 2) + ((push_bit (unat (v1' AND 0xff)) 1 - 1) AND v5))"
    "iVar6 c = sint (CPRS_TABLE ! unat ((drop_bit 1 w AND 3) * 4 + 2)
                      + ((push_bit (unat (v9 AND 0xff)) 1 - 1) AND drop_bit 3 w)
                      + word_of_int (drop_bit 3 (sint (CPRS_TABLE ! (p2 + 1) + 0xb))))"
    by (simp_all add: c_def decode_coded_def Let_def v9_def v1_def v5_def p2_def v1'_def
          del: drop_bit_drop_bit)
  let ?k = "primaryRow w"
  let ?r = "secondaryRow w"
  let ?A = "table_col ?k 0"
  let ?B = "table_col ?r 0"
  have k: "?k \<le> 3" by (simp add: primaryRow_def unat_and3)
  note P = primary_row_facts [OF k]
  have r: "?r = 4 + unat (rest w AND 0xf)" by (simp add: secondaryRow_def)
  have "unat (rest w AND 0xf) \<le> 15" by (rule unat_and15)
  note S = secondary_row_facts [OF this, folded r]
  \<comment> \<open>the primary row\<close>
  have v9: "v9 = ?A"
    by (simp add: v9_def prim_index table_col_def primaryRow_def)
  from P have Ab: "1 \<le> uint ?A" "uint ?A \<le> 8" by auto
  then have "?A AND 0xff = ?A" by (intro and_ff) simp
  then have lenA: "unat (v9 AND 0xff) = codeLenA w"
    by (simp only: v9 codeLenA_def)
  have Ai: "int (codeLenA w) = uint ?A" by (simp add: codeLenA_def)
  with Ab have A8: "codeLenA w \<le> 8" by linarith
  have P2: "CPRS_TABLE ! unat ((drop_bit 1 w AND 3) * 4 + 2) = table_col ?k 2"
    by (simp add: prim_index2 table_col_def primaryRow_def)
  \<comment> \<open>the secondary row\<close>
  have v1: "v1 = rest w"
    unfolding v1_def by (simp only: lenA rest_def)
  have p2: "p2 = 4 * ?r"
    by (simp add: p2_def v1 sec_index secondaryRow_def)
  have v1': "v1' = ?B"
    by (simp add: v1'_def p2 table_col_def)
  from S have Bb: "2 \<le> uint ?B" "uint ?B \<le> 15" by auto
  then have "?B AND 0xff = ?B" by (intro and_ff) simp
  then have lenB: "unat (v1' AND 0xff) = codeLenB w"
    by (simp only: v1' codeLenB_def)
  have Bi: "int (codeLenB w) = uint ?B" by (simp add: codeLenB_def)
  with Bb have B15: "codeLenB w \<le> 15" by linarith
  have S1: "CPRS_TABLE ! (p2 + 1) = table_col ?r 1" and S2: "CPRS_TABLE ! (p2 + 2) = table_col ?r 2"
    by (simp_all add: p2 table_col_def)
  show "uVar9 c = ?A" by (simp only: fields v9)
  show "uVar1 c = ?B" by (simp only: fields v1')
  show "puVar2 c = 4 * ?r" by (simp only: fields p2)
  \<comment> \<open>the bits taken from the window\<close>
  have "carry c = drop_bit (codeLenB w) (drop_bit 4 (drop_bit (codeLenA w) (drop_bit 3 w)))"
    by (simp only: fields lenB v5_def v1 rest_def)
  also have "\<dots> = drop_bit (spec_bits w) w"
    by (simp add: spec_bits_def add.commute add.left_commute)
  finally show "carry c = drop_bit (spec_bits w) w" .
  have "uint (?A + 7) = uint ?A + 7"
    using Ab uint_add_small [of ?A 7] by simp
  moreover have "uint (?A + 7 + ?B) = uint (?A + 7) + uint ?B"
    using Ab Bb calculation by (intro uint_add_small) simp
  ultimately have "uint (?A + 7 + ?B) = int (codeLenA w) + 7 + int (codeLenB w)"
    by (simp only: Ai Bi)
  then show "uint (uVar9 c + 7 + uVar1 c) = int (spec_bits w)"
    by (simp add: fields v9 v1' spec_bits_def)
  \<comment> \<open>the symbol value\<close>
  let ?M = "(push_bit (codeLenB w) 1 - 1) AND drop_bit 4 (rest w)"
  have M: "uint ?M < 32768"
    using mask_and_bound [of "codeLenB w" "drop_bit 4 (rest w)"] pow_le_15 [OF B15] by linarith
  have Mge: "0 \<le> uint ?M" by simp
  from S M have sum7: "uint (table_col ?r 2 + ?M) = uint (table_col ?r 2) + uint ?M"
    by (intro uint_add_small) linarith
  from S M have "sint (table_col ?r 2 + ?M) = uint (table_col ?r 2 + ?M)"
    by (intro sint_small) (simp only: sum7, linarith)
  then have i7: "iVar7 c = uint (table_col ?r 2) + uint ?M"
    by (simp only: fields lenB S2 v5_def v1 sum7)
  then show "iVar7 c = spec_sym w"
    by (simp add: spec_sym_def and.commute)
  from i7 show "0 \<le> iVar7 c"
    by simp
  \<comment> \<open>the repeat count\<close>
  let ?N = "(push_bit (codeLenA w) 1 - 1) AND drop_bit 3 w"
  let ?C = "table_col ?r 1"
  have N: "uint ?N < 256"
    using mask_and_bound [of "codeLenA w" "drop_bit 3 w"] pow_le_8 [OF A8] by linarith
  from S have C: "uint (?C + 0xb) = uint ?C + 11"
    using uint_add_small [of ?C "0xb"] by simp
  from S have "sint (?C + 0xb) = uint (?C + 0xb)"
    by (intro sint_small) (simp only: C, linarith)
  then have sC: "sint (?C + 0xb) = uint ?C + 11"
    by (simp only: C)
  let ?q = "drop_bit 3 (uint ?C + 11)"
  from S have Cb: "6 \<le> uint ?C" "uint ?C \<le> 19"
    by auto
  then have "2 \<le> (uint ?C + 11) div 8" "(uint ?C + 11) div 8 \<le> 3"
    by arith+
  then have q: "2 \<le> ?q" "?q \<le> 3"
    by (simp_all add: drop_bit_eq_div)
  then have uq: "uint (word_of_int ?q :: u32) = ?q"
    by (intro uint_word_of_int_small) linarith+
  from P N have sumPN: "uint (table_col ?k 2 + ?N) = uint (table_col ?k 2) + uint ?N"
    by (intro uint_add_small) linarith
  from P N q have sum6: "uint (table_col ?k 2 + ?N + word_of_int ?q) = uint (table_col ?k 2) + uint ?N + ?q"
    using uint_add_small [of "table_col ?k 2 + ?N" "word_of_int ?q"]
    by (simp only: sumPN uq) linarith
  from P N q have "sint (table_col ?k 2 + ?N + word_of_int ?q) = uint (table_col ?k 2 + ?N + word_of_int ?q)"
    by (intro sint_small) (simp only: sum6, linarith)
  then have i6: "iVar6 c = uint (table_col ?k 2) + uint ?N + ?q"
    by (simp only: fields lenA P2 S1 sC sum6)
  then show "iVar6 c = spec_count w"
    by (simp add: spec_count_def and.commute)
  have "0 \<le> uint (table_col ?k 2)" "0 \<le> uint ?N"
    by simp_all
  with i6 q show "2 \<le> iVar6 c"
    by linarith
qed

lemma spec_bits_le: "spec_bits w \<le> 30"
  using consumed_range [of w] decode_coded_spec(5) [of w] by linarith

lemma length_CPRS_TABLE: "length CPRS_TABLE = 192"
  by (simp add: CPRS_TABLE_def)

text \<open>
  Every index into the table is inside it and every shift amount taken from the table
  is below 32, so the table reads and shifts of \<open>decode_coded\<close> need no guard.
\<close>

lemma decode_coded_in_range:
  "unat ((drop_bit 1 a AND 3) * 4 + 2 :: u32) < length CPRS_TABLE \<and>
   puVar2 (decode_coded a) + 2 < length CPRS_TABLE \<and>
   unat (uVar9 (decode_coded a) AND 0xff) \<le> 8 \<and>
   unat (uVar1 (decode_coded a) AND 0xff) \<le> 15"
proof -
  have "unat (drop_bit 1 a AND 3) \<le> 3"
    by (rule unat_and3)
  then have 1: "unat ((drop_bit 1 a AND 3) * 4 + 2 :: u32) < length CPRS_TABLE"
    by (simp add: prim_index2 length_CPRS_TABLE)
  have "secondaryRow a \<le> 19"
    using unat_and15 [of "rest a"] by (simp add: secondaryRow_def)
  then have 2: "puVar2 (decode_coded a) + 2 < length CPRS_TABLE"
    by (simp add: decode_coded_spec(3) length_CPRS_TABLE)
  have "unat (uVar9 (decode_coded a) AND 0xff) \<le> unat (uVar9 (decode_coded a))"
    "unat (uVar1 (decode_coded a) AND 0xff) \<le> unat (uVar1 (decode_coded a))"
    by (simp_all add: word_and_le2 word_le_nat_alt [symmetric])
  moreover have "unat (uVar9 (decode_coded a)) \<le> 8"
    using uVar9_cases [of a] by auto
  moreover have "unat (uVar1 (decode_coded a)) \<le> 15"
    using uVar1_range [of a] by (simp add: word_le_nat_alt)
  ultimately have 3: "unat (uVar9 (decode_coded a) AND 0xff) \<le> 8"
    "unat (uVar1 (decode_coded a) AND 0xff) \<le> 15"
    by linarith+
  from 1 2 3 show ?thesis by (intro conjI)
qed

subsection \<open>The three kinds of step\<close>



lemma emitted_initial: "emitted (initial_state junk data) = []"
  by (simp add: emitted_def initial_state_def)





lemma drop_bit_bound: "uint (drop_bit n (w :: u32)) < 2 ^ (32 - n)"
proof -
  have "take_bit (32 - n) (drop_bit n w) = drop_bit n w"
    by (rule bit_word_eqI) (auto simp: bit_simps dest: bit_imp_le_length)
  then have "uint (drop_bit n w) = take_bit (32 - n) (uint (drop_bit n w))"
    by (metis unsigned_take_bit_eq)
  then show ?thesis
    by (metis take_bit_int_less_exp)
qed


section \<open>Container validation\<close>

text \<open>
  The invariant of a compressed stream as the specification words it: the total byte
  length is a multiple of 4, the word count exceeds 5, and the first and the last word
  equal the signature.
\<close>

definition valid_container :: "u8 list \<Rightarrow> bool" where
  "valid_container bytes \<longleftrightarrow>
     length bytes mod 4 = 0 \<and> 5 < length bytes div 4 \<and>
     word_at bytes 0 = CPRS_SIG \<and> word_at bytes (length bytes div 4 - 1) = CPRS_SIG"


lemma valid_container_bytes_of:
  "valid_container (bytes_of ws) =
     (5 < length ws \<and> ws ! 0 = CPRS_SIG \<and> ws ! (length ws - 1) = CPRS_SIG)"
proof (cases "5 < length ws")
  case True
  then have "0 < length ws" "length ws - 1 < length ws"
    by linarith+
  with True show ?thesis
    by (simp add: valid_container_def length_bytes_of word_at_bytes_of)
next
  case False
  then show ?thesis
    by (simp add: valid_container_def length_bytes_of)
qed


section \<open>The loop as a whole\<close>














subsection \<open>The last byte produced\<close>






subsection \<open>The faults of a validated container\<close>








section \<open>Inputs\<close>

text \<open>A container whose first symbol is the terminal one: no byte is produced.\<close>

definition sentinel_only :: "u8 list" where
  "sentinel_only = bytes_of [CPRS_SIG, 0, 4, 0x7FFFF1, 0, CPRS_SIG]"

text \<open>A container whose first symbol is a run of two bytes, followed by the terminal symbol.\<close>

definition run_first :: "u32 list" where
  "run_first = [CPRS_SIG, 0, 4, 0xFFFFC401, 1, CPRS_SIG]"










text \<open>A state in which the counter has gone 4 below zero, and the word that follows.\<close>

definition refill_example :: dstate where
  "refill_example =
     \<lparr>alpha = 0, beta = 0xF0000001, remainingShifts = - 4, currentValue = 0,
      readCursor = 0, writeCursor = 0, index = 0, writeCarryByte = 0,
      readCarryByte = 0, buffer = []\<rparr>"

lemmas spec_defs = spec_sym_def spec_count_def spec_bits_def codeLenA_def codeLenB_def
  primaryRow_def secondaryRow_def rest_def table_col_def









section \<open>The claims of the specification\<close>

subsection \<open>C1: the decode formulas of a coded symbol\<close>

text \<open>
  Claim C1. On a coded-symbol step (bit 0 of the window is 1) the decoder works with the
  symbol value \<open>spec_sym\<close> = secondaryRow.col2 + (high AND ((1 << codeLenB) - 1)) and the
  repeat count \<open>spec_count\<close> = primaryRow.col2 + ((window >> 3) AND ((1 << codeLenA) - 1))
  + ((secondaryRow.col1 + 11) >> 3), the rows being selected as the specification says, and
  it takes codeLenA + 7 + codeLenB bits from the window: the carry is the window shifted
  right by that many bits and the live-bit counter goes down by that number (without
  wrap-around when the counter is between 0 and 32, as it is in every iteration).
\<close>

theorem coded_step_decodes_symbol:
  assumes "alpha s AND 1 = 1"
  shows "step data s =
     (let w = alpha s;
          t = s\<lparr>readCarryByte := drop_bit (spec_bits w) w,
                 remainingShifts := int8 (remainingShifts s - int (spec_bits w))\<rparr>
      in if CPRS_TERM \<le> spec_sym w then Inr (Break t)
         else
           (case (if spec_sym w = 0 then run_loop (nat (spec_count w)) t
                  else copy_loop (spec_sym w) (uint (index s) - spec_sym w * 2) 0
                         (nat (spec_count w)) t) of
              Inl f \<Rightarrow> Inl f
            | Inr t' \<Rightarrow> (case refill data t' of Inl f \<Rightarrow> Inl f | Inr s' \<Rightarrow> Inr (Next s')))) \<and>
     (0 \<le> remainingShifts s \<and> remainingShifts s \<le> 32 \<longrightarrow>
        int8 (remainingShifts s - int (spec_bits (alpha s))) = remainingShifts s - int (spec_bits (alpha s)))"
proof -
  note D = decode_coded_spec [of "alpha s"]
  from assms have "alpha s AND 1 \<noteq> 0" by simp
  then have "step data s =
     (case coded_step s of
        Inl f \<Rightarrow> Inl f
      | Inr (Break s1) \<Rightarrow> Inr (Break s1)
      | Inr (Next s1) \<Rightarrow> (case refill data s1 of Inl f \<Rightarrow> Inl f | Inr s2 \<Rightarrow> Inr (Next s2)))"
    by (simp add: step_def)
  then have 1: "step data s =
     (let w = alpha s;
          t = s\<lparr>readCarryByte := drop_bit (spec_bits w) w,
                 remainingShifts := int8 (remainingShifts s - int (spec_bits w))\<rparr>
      in if CPRS_TERM \<le> spec_sym w then Inr (Break t)
         else
           (case (if spec_sym w = 0 then run_loop (nat (spec_count w)) t
                  else copy_loop (spec_sym w) (uint (index s) - spec_sym w * 2) 0
                         (nat (spec_count w)) t) of
              Inl f \<Rightarrow> Inl f
            | Inr t' \<Rightarrow> (case refill data t' of Inl f \<Rightarrow> Inl f | Inr s' \<Rightarrow> Inr (Next s'))))"
    by (simp add: coded_step_def Let_def D(4,5,6,7) split: sum.splits)
  have 2: "0 \<le> remainingShifts s \<and> remainingShifts s \<le> 32 \<longrightarrow>
        int8 (remainingShifts s - int (spec_bits (alpha s))) = remainingShifts s - int (spec_bits (alpha s))"
    using spec_bits_le [of "alpha s"] by (auto intro!: int8_id)
  from 1 2 show ?thesis by (rule conjI)
qed

theorem coded_step_decodes_symbol_witness:
  "alpha (initial_state 7 run_first) AND 1 = 1 \<and>
   spec_sym (alpha (initial_state 7 run_first)) = 0 \<and>
   spec_count (alpha (initial_state 7 run_first)) = 2 \<and>
   spec_bits (alpha (initial_state 7 run_first)) = 10 \<and>
   step run_first (initial_state 7 run_first) =
     Inr (Next \<lparr>alpha = 0x7FFFF1, beta = 1, remainingShifts = 22, currentValue = 0x707,
                 readCursor = 5, writeCursor = 0, index = 2, writeCarryByte = 7,
                 readCarryByte = 0x3FFFF1, buffer = [0, 0, 0, 0]\<rparr>)"
proof -
  have a: "alpha (initial_state 7 run_first) AND 1 = 1"
    by (simp add: initial_state_def run_first_def)
  have b: "spec_sym (alpha (initial_state 7 run_first)) = 0"
    "spec_count (alpha (initial_state 7 run_first)) = 2"
    "spec_bits (alpha (initial_state 7 run_first)) = 10"
    by (simp_all add: initial_state_def run_first_def spec_defs CPRS_TABLE_def)
  from coded_step_decodes_symbol [OF a, of run_first]
  have "step run_first (initial_state 7 run_first) =
     Inr (Next \<lparr>alpha = 0x7FFFF1, beta = 1, remainingShifts = 22, currentValue = 0x707,
                 readCursor = 5, writeCursor = 0, index = 2, writeCarryByte = 7,
                 readCarryByte = 0x3FFFF1, buffer = [0, 0, 0, 0]\<rparr>)"
    by (simp add: b CPRS_TERM_def)
       (simp add: initial_state_def run_first_def run_loop_numeral write_byte_def refill_def
          store_lane_def int8_def Let_def replicate_numeral)
  with a b show ?thesis by simp
qed

subsection \<open>C2: back-reference copies\<close>




subsection \<open>C3: literal steps\<close>



subsection \<open>C4: runs of the last byte\<close>



subsection \<open>C5: the terminal symbol\<close>



subsection \<open>C6: the refill rule\<close>

text \<open>
  The refill rule in the words of claim C6: after adding 32 to the counter, the carry is
  the high \<open>32 - counter\<close> bits of the lookahead register, and the window is the old
  lookahead shifted, OR-ed with the carry.
\<close>

definition refill_as_claimed :: "u32 list \<Rightarrow> dstate \<Rightarrow> dstate" where
  "refill_as_claimed data s =
     (if remainingShifts s < 0 then
        (let counter = remainingShifts s + 32;
             c = drop_bit (nat counter) (beta s)
         in s\<lparr>remainingShifts := counter, readCarryByte := c,
               beta := data ! readCursor s, readCursor := readCursor s + 1,
               alpha := push_bit (nat counter) (beta s) OR c\<rparr>)
      else s\<lparr>alpha := push_bit (nat (remainingShifts s)) (beta s) OR readCarryByte s\<rparr>)"

text \<open>
  Claim C6, as the code has it. When the live-bit counter is negative after a consumption,
  32 is added to it, the carry is the lookahead register shifted right by \<open>32 - counter\<close>
  (its high \<open>counter\<close> bits), the lookahead register is loaded from the next word of the
  input and the read cursor advances, and the window is the new lookahead shifted left by
  \<open>counter\<close>, OR-ed with the carry. When the counter is not negative, the window is
  \<open>(lookahead << counter) OR leftover\<close> and the cursor does not move.
\<close>

theorem refill_rule:
  "(- 32 < remainingShifts s \<and> remainingShifts s < 0 \<and> readCursor s < length data \<longrightarrow>
      (let counter = remainingShifts s + 32;
           c = drop_bit (nat (32 - counter)) (beta s)
       in refill data s =
            Inr (s\<lparr>remainingShifts := counter, readCarryByte := c,
                   beta := data ! readCursor s, readCursor := readCursor s + 1,
                   alpha := push_bit (nat counter) (data ! readCursor s) OR c\<rparr>) \<and>
          uint c < 2 ^ nat counter)) \<and>
   (0 \<le> remainingShifts s \<and> remainingShifts s < 32 \<longrightarrow>
      refill data s =
        Inr (s\<lparr>alpha := push_bit (nat (remainingShifts s)) (beta s) OR readCarryByte s\<rparr>))"
proof (intro conjI impI)
  assume h: "- 32 < remainingShifts s \<and> remainingShifts s < 0 \<and> readCursor s < length data"
  let ?r = "remainingShifts s + 32"
  from h have r: "int8 ?r = ?r" "0 < ?r" "?r < 32"
    by (auto intro!: int8_id)
  have "uint (drop_bit (nat (32 - ?r)) (beta s)) < 2 ^ (32 - nat (32 - ?r))"
    by (rule drop_bit_bound)
  moreover have "32 - nat (32 - ?r) = nat ?r"
    using r by simp
  ultimately have b: "uint (drop_bit (nat (32 - ?r)) (beta s)) < 2 ^ nat ?r"
    by simp
  from h r have "refill data s =
            Inr (s\<lparr>remainingShifts := ?r, readCarryByte := drop_bit (nat (32 - ?r)) (beta s),
                   beta := data ! readCursor s, readCursor := readCursor s + 1,
                   alpha := push_bit (nat ?r) (data ! readCursor s) OR drop_bit (nat (32 - ?r)) (beta s)\<rparr>)"
    by (simp add: refill_def Let_def)
  with b show "let counter = remainingShifts s + 32;
           c = drop_bit (nat (32 - counter)) (beta s)
       in refill data s =
            Inr (s\<lparr>remainingShifts := counter, readCarryByte := c,
                   beta := data ! readCursor s, readCursor := readCursor s + 1,
                   alpha := push_bit (nat counter) (data ! readCursor s) OR c\<rparr>) \<and>
          uint c < 2 ^ nat counter"
    by (simp add: Let_def)
next
  assume "0 \<le> remainingShifts s \<and> remainingShifts s < 32"
  then show "refill data s =
        Inr (s\<lparr>alpha := push_bit (nat (remainingShifts s)) (beta s) OR readCarryByte s\<rparr>)"
    by (simp add: refill_def)
qed

theorem refill_rule_witness:
  "- 32 < remainingShifts refill_example \<and> remainingShifts refill_example < 0 \<and>
   readCursor refill_example < length [0x00000003 :: u32] \<and>
   refill [0x00000003] refill_example =
     Inr (refill_example\<lparr>remainingShifts := 28, readCarryByte := 0x0F000000,
            beta := 0x00000003, readCursor := 1, alpha := 0x3F000000\<rparr>) \<and>
   refill [] (refill_example\<lparr>remainingShifts := 5, readCarryByte := 6\<rparr>) =
     Inr (refill_example\<lparr>remainingShifts := 5, readCarryByte := 6, alpha := 0x26\<rparr>)"
proof -
  have h: "- 32 < remainingShifts refill_example \<and> remainingShifts refill_example < 0 \<and>
      readCursor refill_example < length [0x00000003 :: u32]"
    by (simp add: refill_example_def)
  from refill_rule [of refill_example "[0x00000003]"] h
  have 1: "refill [0x00000003] refill_example =
     Inr (refill_example\<lparr>remainingShifts := 28, readCarryByte := 0x0F000000,
            beta := 0x00000003, readCursor := 1, alpha := 0x3F000000\<rparr>)"
    by (simp add: Let_def refill_example_def)
  from refill_rule [of "refill_example\<lparr>remainingShifts := 5, readCarryByte := 6\<rparr>" "[]"]
  have 2: "refill [] (refill_example\<lparr>remainingShifts := 5, readCarryByte := 6\<rparr>) =
     Inr (refill_example\<lparr>remainingShifts := 5, readCarryByte := 6, alpha := 0x26\<rparr>)"
    by (simp add: refill_example_def)
  from h 1 2 show ?thesis by blast
qed

text \<open>
  Read by its words, claim C6 does not describe the code: at a counter of 28 the carry
  is the high 28 bits of the lookahead register, not its high 4 bits, and the window
  \<open>0x3F000000\<close> is built from the word just loaded, not from the old lookahead (which,
  shifted left by 28 and OR-ed with the carry of the code, would give \<open>0x1F000000\<close>;
  the word just loaded with a carry of 4 bits would give \<open>0x3000000F\<close>).
\<close>

theorem refill_as_claimed_counterexample:
  "refill [0x00000003] refill_example =
     Inr (refill_example\<lparr>remainingShifts := 28, readCarryByte := 0x0F000000,
            beta := 0x00000003, readCursor := 1, alpha := 0x3F000000\<rparr>) \<and>
   refill_as_claimed [0x00000003] refill_example =
     refill_example\<lparr>remainingShifts := 28, readCarryByte := 0xF,
       beta := 0x00000003, readCursor := 1, alpha := 0x1000000F\<rparr> \<and>
   refill [0x00000003] refill_example \<noteq> Inr (refill_as_claimed [0x00000003] refill_example) \<and>
   push_bit 28 (beta refill_example) OR drop_bit 4 (beta refill_example) = 0x1F000000 \<and>
   push_bit 28 (0x00000003 :: u32) OR drop_bit 28 (beta refill_example) = 0x3000000F"
  by (simp add: refill_def refill_as_claimed_def refill_example_def int8_def Let_def)

subsection \<open>C7: rejection of malformed containers\<close>

text \<open>
  Claim C7. \<open>decompress\<close> fails with \<open>FormatError\<close> exactly when the container is
  structurally invalid (byte length not a multiple of 4, at most 5 words, or a first or
  last word that is not the signature). The failure carries no buffer and is returned
  before the buffer is allocated and before any symbol is decoded; every container that
  passes the checks goes on to the decode loop from the initial state.
\<close>

theorem decompress_FormatError_iff_invalid:
  "(decompress junk bytes = Inl FormatError) = (\<not> valid_container bytes) \<and>
   (valid_container bytes \<longrightarrow>
      decompress junk bytes =
        (case decode_loop (words_of bytes) (initial_state junk (words_of bytes)) of
           Inl f \<Rightarrow> Inl f
         | Inr s \<Rightarrow> finish s))"
  by (auto simp: decompress_def valid_container_def Let_def words_of_nth
           split: sum.splits dest: decode_loop_fault finish_fault)

theorem decompress_FormatError_iff_invalid_witness:
  "valid_container sentinel_only \<and>
   decompress 0 sentinel_only \<noteq> Inl FormatError \<and>
   decompress 0 sentinel_only =
     (case decode_loop (words_of sentinel_only) (initial_state 0 (words_of sentinel_only)) of
        Inl f \<Rightarrow> Inl f
      | Inr s \<Rightarrow> finish s) \<and>
   \<not> valid_container [0x43, 0x50, 0x52] \<and>
   decompress 0 [0x43, 0x50, 0x52] = Inl FormatError"
proof -
  have v: "valid_container sentinel_only"
    by (simp add: valid_container_def sentinel_only_def length_bytes_of word_at_bytes_of)
  have n: "\<not> valid_container [0x43, 0x50, 0x52]"
    by (simp add: valid_container_def)
  note ok = decompress_FormatError_iff_invalid [of 0 sentinel_only]
  note bad = decompress_FormatError_iff_invalid [of 0 "[0x43, 0x50, 0x52]"]
  from v ok have a: "decompress 0 sentinel_only \<noteq> Inl FormatError"
    by blast
  from v ok have b: "decompress 0 sentinel_only =
     (case decode_loop (words_of sentinel_only) (initial_state 0 (words_of sentinel_only)) of
        Inl f \<Rightarrow> Inl f
      | Inr s \<Rightarrow> finish s)"
    by blast
  from n bad have c: "decompress 0 [0x43, 0x50, 0x52] = Inl FormatError"
    by blast
  from v a b n c show ?thesis
    by (intro conjI)
qed

subsection \<open>C8: termination, output size and bounds\<close>




subsection \<open>C9: truncated payloads\<close>




subsection \<open>C10: the uninitialised byte of a leading run\<close>

text \<open>
  Claim C10. The container \<open>run_first\<close> passes validation and its first symbol is a run
  (symbol value 0) when nothing has been produced: the two bytes of the run are the
  content of \<^verbatim>\<open>writeCarryByte\<close>, which no statement has set. The result of
  \<open>decompress\<close> depends on that content, so it is not a function of the input bytes.
\<close>

theorem uninitialised_run_output:
  "valid_container (bytes_of run_first) \<and>
   (\<forall>junk. emitted (initial_state junk run_first) = [] \<and>
      alpha (initial_state junk run_first) AND 1 = 1 \<and>
      iVar7 (decode_coded (alpha (initial_state junk run_first))) = 0 \<and>
      decompress junk (bytes_of run_first) = Inr ([junk, junk, 0, 0], 2)) \<and>
   (\<exists>j1 j2. decompress j1 (bytes_of run_first) \<noteq> decompress j2 (bytes_of run_first))"
proof -
  have v: "valid_container (bytes_of run_first)"
    by (simp add: valid_container_bytes_of run_first_def)
  have a: "alpha (initial_state junk run_first) AND 1 = 1"
    "iVar7 (decode_coded (alpha (initial_state junk run_first))) = 0" for junk
    by (simp_all add: initial_state_def run_first_def decode_coded_def Let_def CPRS_TABLE_def)
  have d: "decompress junk (bytes_of run_first) = Inr ([junk, junk, 0, 0], 2)" for junk
    by (simp add: run_first_def run_defs)
  have "decompress 0 (bytes_of run_first) \<noteq> decompress 1 (bytes_of run_first)"
    by (simp add: d)
  then have n: "\<exists>j1 j2. decompress j1 (bytes_of run_first) \<noteq> decompress j2 (bytes_of run_first)"
    by blast
  from v a d n show ?thesis
    by (simp add: emitted_initial)
qed

theorem uninitialised_run_output_witness:
  "decompress 0 (bytes_of run_first) = Inr ([0, 0, 0, 0], 2) \<and>
   decompress 0xAA (bytes_of run_first) = Inr ([0xAA, 0xAA, 0, 0], 2) \<and>
   decompress 0 (bytes_of run_first) \<noteq> decompress 0xAA (bytes_of run_first)"
  using uninitialised_run_output by simp

end
